theory Spec2Isabelle
  imports Complex_Main "HOL-Library.Multiset"
begin

section \<open>Data model of the service-request page\<close>

text \<open>
  The development embeds the computation of
  \<^verbatim>\<open>src/app/(dashboard)/dashboard/our-service/page.tsx\<close>: the status filter, the
  grouping of requests by user, the pagination of the groups, the badge counts, the
  tab handlers and the delete action.  Closures of the component are written as
  functions of the values they capture.
\<close>

subsection \<open>Enumerations\<close>

text \<open>
  \<^verbatim>\<open>enum ServiceStatus { Pending = "pending", Accept = "accept", Decline = "decline" }\<close>.
  The approval status of a request arrives from the API as a string and is compared with
  these string values, so the members are string constants.
\<close>

definition ServiceStatus_Pending :: string where
  "ServiceStatus_Pending = ''pending''"

definition ServiceStatus_Accept :: string where
  "ServiceStatus_Accept = ''accept''"

definition ServiceStatus_Decline :: string where
  "ServiceStatus_Decline = ''decline''"

text \<open>
  \<^verbatim>\<open>enum TabStatus { Pending, Accept, Decline, Done }\<close>: the value of the selected
  status tab.  The tab is component state of this enum type, so the \<^verbatim>\<open>default\<close>
  branches of the switches over it are unreachable.
\<close>

datatype TabStatus = TabStatus_Pending | TabStatus_Accept | TabStatus_Decline | TabStatus_Done

text \<open>
  Modelled from the spec: the enum \<^verbatim>\<open>DeliveryStatus\<close> is imported from
  \<^verbatim>\<open>@/types\<close>, which is not among the sources.  The specification lists its values
  as not-started, started and done; the page uses \<^verbatim>\<open>DeliveryStatus.Done\<close> and
  \<^verbatim>\<open>DeliveryStatus.Started\<close>.
\<close>

datatype DeliveryStatus =
  DeliveryStatus_NotStarted | DeliveryStatus_Started | DeliveryStatus_Done

datatype ServiceTab = POP | COCP

subsection \<open>Users and requests\<close>

text \<open>
  Modelled from the spec: the types \<^verbatim>\<open>User\<close>, \<^verbatim>\<open>Pop\<close> and \<^verbatim>\<open>Cocp\<close> are
  imported from \<^verbatim>\<open>@/types\<close>, which is not among the sources.  The records hold
  the fields the page reads.  \<^verbatim>\<open>Partial<User>\<close> makes every field optional;
  \<open>u_id\<close> is the field \<^verbatim>\<open>_id\<close> of a user and \<open>r_id\<close> the field \<^verbatim>\<open>_id\<close> of a
  request.
\<close>

record User =
  u_id :: "string option"
  firstName :: "string option"
  surname :: "string option"
  email :: "string option"
  phoneNumber :: "string option"
  avatar :: "string option"

text \<open>
  The field \<^verbatim>\<open>userId\<close> of a request has type \<^verbatim>\<open>User | string\<close>: an embedded
  user object or a bare identifier.
\<close>

datatype UserRef = Embedded User | Reference string

record Request =
  r_id :: string
  userId :: UserRef
  status :: string
  deliveryStatus :: "DeliveryStatus option"
  createdAt :: "string option"

text \<open>\<^verbatim>\<open>interface GroupedRequests { user: Partial<User>; requests: (Pop | Cocp)[] }\<close>\<close>

record GroupedRequests =
  user :: User
  requests :: "Request list"

section \<open>Status filter\<close>

text \<open>
  \<^verbatim>\<open>allRequests.filter((req) => { switch (activeStatusTab) { ... } })\<close>
\<close>

definition filteredRequests :: "TabStatus \<Rightarrow> Request list \<Rightarrow> Request list" where
  "filteredRequests activeStatusTab allRequests =
     filter (\<lambda>req.
       case activeStatusTab of
         TabStatus_Pending \<Rightarrow> status req = ServiceStatus_Pending
       | TabStatus_Decline \<Rightarrow> status req = ServiceStatus_Decline
       | TabStatus_Accept \<Rightarrow>
           status req = ServiceStatus_Accept \<and>
           deliveryStatus req \<noteq> Some DeliveryStatus_Done
       | TabStatus_Done \<Rightarrow>
           status req = ServiceStatus_Accept \<and>
           deliveryStatus req = Some DeliveryStatus_Done) allRequests"

section \<open>Grouping by user\<close>

text \<open>
  \<^verbatim>\<open>const getUser = (user: User | string): Partial<User> =>
    typeof user === "object" ? user : { _id: user }\<close>
\<close>

definition getUser :: "UserRef \<Rightarrow> User" where
  "getUser usr =
     (case usr of
        Embedded u \<Rightarrow> u
      | Reference s \<Rightarrow>
          \<lparr>u_id = Some s, firstName = None, surname = None, email = None,
           phoneNumber = None, avatar = None\<rparr>)"

text \<open>
  \<^verbatim>\<open>user._id || "unknown"\<close>: the operator \<^verbatim>\<open>||\<close> takes the right operand when the
  left one is \<^verbatim>\<open>undefined\<close> or the empty string.
\<close>

definition userId_of :: "User \<Rightarrow> string" where
  "userId_of usr =
     (case u_id usr of
        None \<Rightarrow> ''unknown''
      | Some s \<Rightarrow> if s = [] then ''unknown'' else s)"

text \<open>
  A JavaScript \<^verbatim>\<open>Map\<close> iterates in insertion order, so it is an association list
  with the oldest key first.  \<^verbatim>\<open>set\<close> on a key that is present replaces the value and
  keeps the position of the key; on a new key it appends.
\<close>

type_synonym ('k, 'v) JsMap = "('k \<times> 'v) list"

definition Map_has :: "('k, 'v) JsMap \<Rightarrow> 'k \<Rightarrow> bool" where
  "Map_has m k = (k \<in> set (map fst m))"

fun Map_set :: "('k, 'v) JsMap \<Rightarrow> 'k \<Rightarrow> 'v \<Rightarrow> ('k, 'v) JsMap" where
  "Map_set [] k v = [(k, v)]"
| "Map_set ((k', v') # m) k v =
     (if k' = k then (k, v) # m else (k', v') # Map_set m k v)"

definition Map_get :: "('k, 'v) JsMap \<Rightarrow> 'k \<Rightarrow> 'v option" where
  "Map_get m k = map_of m k"

definition Map_values :: "('k, 'v) JsMap \<Rightarrow> 'v list" where
  "Map_values m = map snd m"

text \<open>
  Reading \<^verbatim>\<open>.requests\<close> of \<^verbatim>\<open>groups.get(userId)!\<close> would raise a
  \<^verbatim>\<open>TypeError\<close> if the key were absent.
\<close>

datatype error = TypeError

text \<open>
  The body of \<^verbatim>\<open>filteredRequests.forEach((req) => { ... })\<close>.  The source pushes
  \<^verbatim>\<open>req\<close> onto the array of the group object held by the map; here the group with
  the longer array is stored back under its key, which leaves its position unchanged.
\<close>

definition forEach_body ::
  "(string, GroupedRequests) JsMap \<Rightarrow> Request \<Rightarrow> error + (string, GroupedRequests) JsMap" where
  "forEach_body groups req =
     (let usr = getUser (userId req);
          uid = userId_of usr;
          groups1 = (if \<not> Map_has groups uid
                     then Map_set groups uid \<lparr>user = usr, requests = []\<rparr>
                     else groups)
      in case Map_get groups1 uid of
           None \<Rightarrow> Inl TypeError
         | Some g \<Rightarrow> Inr (Map_set groups1 uid (g\<lparr>requests := requests g @ [req]\<rparr>)))"

fun forEach ::
  "(string, GroupedRequests) JsMap \<Rightarrow> Request list \<Rightarrow> error + (string, GroupedRequests) JsMap" where
  "forEach groups [] = Inr groups"
| "forEach groups (req # rest) =
     (case forEach_body groups req of
        Inl e \<Rightarrow> Inl e
      | Inr groups1 \<Rightarrow> forEach groups1 rest)"

text \<open>
  \<^verbatim>\<open>const groups = new Map(); filteredRequests.forEach(...);
  return Array.from(groups.values())\<close>
\<close>

definition groupedRequests :: "Request list \<Rightarrow> error + GroupedRequests list" where
  "groupedRequests filtered =
     (case forEach [] filtered of
        Inl e \<Rightarrow> Inl e
      | Inr groups \<Rightarrow> Inr (Map_values groups))"

section \<open>Pagination over the groups\<close>

definition localLimit :: int where
  "localLimit = 10"

text \<open>
  The page size is the constant \<open>localLimit\<close> in the source; the functions below take
  it as their first argument and the component passes \<open>localLimit\<close>.

  \<^verbatim>\<open>Math.ceil(totalGroups / localLimit)\<close>, with the quotient taken in the reals.
\<close>

definition totalPage :: "int \<Rightarrow> nat \<Rightarrow> int" where
  "totalPage limit totalGroups = \<lceil>real totalGroups / real_of_int limit\<rceil>"

definition startIndex :: "int \<Rightarrow> int \<Rightarrow> int" where
  "startIndex limit currentPage = (currentPage - 1) * limit"

definition endIndex :: "int \<Rightarrow> int \<Rightarrow> int" where
  "endIndex limit currentPage = startIndex limit currentPage + limit"

text \<open>
  \<^verbatim>\<open>Array.prototype.slice(start, end)\<close>: a negative index counts from the end of the
  array, both indices are clamped to the array, and an empty range gives the empty array.
\<close>

definition slice :: "'a list \<Rightarrow> int \<Rightarrow> int \<Rightarrow> 'a list" where
  "slice xs start fin =
     (let len = int (length xs);
          k = (if start < 0 then max (len + start) 0 else min start len);
          final = (if fin < 0 then max (len + fin) 0 else min fin len)
      in take (nat (final - k)) (drop (nat k) xs))"

definition groupsToDisplay ::
  "int \<Rightarrow> int \<Rightarrow> GroupedRequests list \<Rightarrow> GroupedRequests list" where
  "groupsToDisplay limit currentPage grouped =
     slice grouped (startIndex limit currentPage) (endIndex limit currentPage)"

section \<open>Badge counts\<close>

text \<open>\<^verbatim>\<open>const getTabCount = (status: TabStatus): number => { switch (status) ... }\<close>\<close>

definition getTabCount :: "Request list \<Rightarrow> TabStatus \<Rightarrow> nat" where
  "getTabCount allRequests tab =
     (case tab of
        TabStatus_Pending \<Rightarrow>
          length (filter (\<lambda>r. status r = ServiceStatus_Pending) allRequests)
      | TabStatus_Decline \<Rightarrow>
          length (filter (\<lambda>r. status r = ServiceStatus_Decline) allRequests)
      | TabStatus_Accept \<Rightarrow>
          length (filter (\<lambda>r. status r = ServiceStatus_Accept \<and>
                               deliveryStatus r \<noteq> Some DeliveryStatus_Done) allRequests)
      | TabStatus_Done \<Rightarrow>
          length (filter (\<lambda>r. status r = ServiceStatus_Accept \<and>
                               deliveryStatus r = Some DeliveryStatus_Done) allRequests))"

section \<open>Component state and handlers\<close>

text \<open>The four \<^verbatim>\<open>useState\<close> cells of \<^verbatim>\<open>OurServicePage\<close>.\<close>

record PageState =
  activeServiceTab :: ServiceTab
  activeStatusTab :: TabStatus
  popPage :: int
  cocpPage :: int

definition initialState :: PageState where
  "initialState =
     \<lparr>activeServiceTab = POP, activeStatusTab = TabStatus_Pending, popPage = 1, cocpPage = 1\<rparr>"

definition handleServiceTabChange :: "ServiceTab \<Rightarrow> PageState \<Rightarrow> PageState" where
  "handleServiceTabChange tab st = st\<lparr>activeServiceTab := tab, popPage := 1, cocpPage := 1\<rparr>"

definition handleStatusTabChange :: "TabStatus \<Rightarrow> PageState \<Rightarrow> PageState" where
  "handleStatusTabChange tab st =
     (if activeServiceTab st = POP
      then st\<lparr>activeStatusTab := tab, popPage := 1\<rparr>
      else st\<lparr>activeStatusTab := tab, cocpPage := 1\<rparr>)"

definition currentPage :: "PageState \<Rightarrow> int" where
  "currentPage st = (if activeServiceTab st = POP then popPage st else cocpPage st)"

definition setPage :: "int \<Rightarrow> PageState \<Rightarrow> PageState" where
  "setPage p st = (if activeServiceTab st = POP then st\<lparr>popPage := p\<rparr> else st\<lparr>cocpPage := p\<rparr>)"

text \<open>
  Modelled from the spec: the query hooks of \<^verbatim>\<open>@/api/serviceApi\<close> are not among the
  sources.  A list query answers with an envelope
  \<^verbatim>\<open>{ success, data, message? }\<close>; before an answer has arrived the hook's
  \<^verbatim>\<open>data\<close> is \<^verbatim>\<open>undefined\<close>.
\<close>

record ApiResponse =
  success :: bool
  data :: "Request list"
  message :: "string option"

record QueryState =
  popResponse :: "ApiResponse option"
  cocpResponse :: "ApiResponse option"
  isPopLoading :: bool
  isCocpLoading :: bool
  isPopError :: bool
  isCocpError :: bool

definition isLoading :: "PageState \<Rightarrow> QueryState \<Rightarrow> bool" where
  "isLoading st q = (if activeServiceTab st = POP then isPopLoading q else isCocpLoading q)"

definition isError :: "PageState \<Rightarrow> QueryState \<Rightarrow> bool" where
  "isError st q = (if activeServiceTab st = POP then isPopError q else isCocpError q)"

definition responseData :: "PageState \<Rightarrow> QueryState \<Rightarrow> ApiResponse option" where
  "responseData st q = (if activeServiceTab st = POP then popResponse q else cocpResponse q)"

text \<open>\<^verbatim>\<open>const allRequests = responseData?.data || []\<close>\<close>

definition allRequests :: "PageState \<Rightarrow> QueryState \<Rightarrow> Request list" where
  "allRequests st q = (case responseData st q of None \<Rightarrow> [] | Some resp \<Rightarrow> data resp)"

section \<open>What the component renders\<close>

text \<open>
  The conditional of the grouped view: loading, failed to load, the empty state
  \<^verbatim>\<open>No ... requests found\<close>, or the list of groups.
\<close>

datatype View = Loading | FailedToLoad | NoRequestsFound | GroupList "GroupedRequests list"

definition groupedView :: "bool \<Rightarrow> bool \<Rightarrow> GroupedRequests list \<Rightarrow> View" where
  "groupedView loading failed shown =
     (if loading then Loading
      else if failed then FailedToLoad
      else if length shown = 0 then NoRequestsFound
      else GroupList shown)"

text \<open>The derived values of one render, from the state cells and the query results.\<close>

definition OurServicePage_grouped :: "PageState \<Rightarrow> QueryState \<Rightarrow> error + GroupedRequests list" where
  "OurServicePage_grouped st q =
     groupedRequests (filteredRequests (activeStatusTab st) (allRequests st q))"

definition OurServicePage_totalPage :: "PageState \<Rightarrow> QueryState \<Rightarrow> error + int" where
  "OurServicePage_totalPage st q =
     (case OurServicePage_grouped st q of
        Inl e \<Rightarrow> Inl e
      | Inr grouped \<Rightarrow> Inr (totalPage localLimit (length grouped)))"

definition OurServicePage_groupsToDisplay ::
  "PageState \<Rightarrow> QueryState \<Rightarrow> error + GroupedRequests list" where
  "OurServicePage_groupsToDisplay st q =
     (case OurServicePage_grouped st q of
        Inl e \<Rightarrow> Inl e
      | Inr grouped \<Rightarrow> Inr (groupsToDisplay localLimit (currentPage st) grouped))"

definition OurServicePage_view :: "PageState \<Rightarrow> QueryState \<Rightarrow> error + View" where
  "OurServicePage_view st q =
     (case OurServicePage_groupsToDisplay st q of
        Inl e \<Rightarrow> Inl e
      | Inr shown \<Rightarrow> Inr (groupedView (isLoading st q) (isError st q) shown))"

definition OurServicePage_tabCount :: "PageState \<Rightarrow> QueryState \<Rightarrow> TabStatus \<Rightarrow> nat" where
  "OurServicePage_tabCount st q tab = getTabCount (allRequests st q) tab"

section \<open>Row actions and deletion\<close>

text \<open>
  The action cell of a request row holds two conditional fragments: one for a pending
  request, one for an accepted or declined request.
\<close>

datatype RowAction = DetailsLink | AcceptButton | DeclineButton | DeleteButton

definition rowActions :: "Request \<Rightarrow> RowAction list" where
  "rowActions req =
     (if status req = ServiceStatus_Pending
      then [DetailsLink, AcceptButton, DeclineButton] else [])
     @ (if status req = ServiceStatus_Accept \<or> status req = ServiceStatus_Decline
        then [DetailsLink, DeleteButton] else [])"

text \<open>
  \<open>handleDelete\<close> opens a confirmation dialog and, only if the dialog resolves with
  \<^verbatim>\<open>isConfirmed\<close>, calls the delete mutation of the active service.  The answers of
  the dialog and of the mutation are arguments; the result is what the handler does, in order.
\<close>

datatype MutationOutcome = Fulfilled "string option" | Rejected "string option"

datatype Effect =
  ConfirmDialog
| DeletePop string
| DeleteCocp string
| ToastSuccess string
| DeletedDialog
| ConsoleError
| ToastError string

text \<open>\<^verbatim>\<open>message || fallback\<close> on an optional string.\<close>

definition or_else :: "string option \<Rightarrow> string \<Rightarrow> string" where
  "or_else msg fallback =
     (case msg of None \<Rightarrow> fallback | Some s \<Rightarrow> if s = [] then fallback else s)"

definition handleDelete :: "ServiceTab \<Rightarrow> string \<Rightarrow> bool \<Rightarrow> MutationOutcome \<Rightarrow> Effect list" where
  "handleDelete activeTab ident isConfirmed outcome =
     ConfirmDialog #
     (if isConfirmed
      then (if activeTab = POP then DeletePop ident else DeleteCocp ident) #
           (case outcome of
              Fulfilled msg \<Rightarrow>
                [ToastSuccess (or_else msg ''Request deleted successfully!''), DeletedDialog]
            | Rejected msg \<Rightarrow>
                [ConsoleError, ToastError (or_else msg ''An error occurred while deleting.'')])
      else [])"

section \<open>Notions used to state the properties\<close>

text \<open>
  The key under which the loop body files a request: \<^verbatim>\<open>getUser(req.userId)\<close>
  followed by \<^verbatim>\<open>user._id || "unknown"\<close>.
\<close>

definition userKey :: "Request \<Rightarrow> string" where
  "userKey req = userId_of (getUser (userId req))"

text \<open>
  The distinct elements of a list in the order of their first occurrence.
\<close>

fun first_occurrences :: "'a list \<Rightarrow> 'a list" where
  "first_occurrences [] = []"
| "first_occurrences (x # xs) = x # first_occurrences (filter (\<lambda>y. y \<noteq> x) xs)"

text \<open>
  The group that the requests of key \<open>k\<close> form: the user resolved from the first
  request of that key, and the requests of that key in source order.
\<close>

definition group_of :: "Request list \<Rightarrow> string \<Rightarrow> GroupedRequests" where
  "group_of reqs k = \<lparr>user = getUser (userId (hd [r \<leftarrow> reqs. userKey r = k])),
                       requests = [r \<leftarrow> reqs. userKey r = k]\<rparr>"

text \<open>
  The state of the map in the middle of the loop: an entry that is already present
  receives the later requests of its key, and a key that is not yet present gets a new
  entry.
\<close>

definition grow :: "Request list \<Rightarrow> string \<times> GroupedRequests \<Rightarrow> string \<times> GroupedRequests" where
  "grow reqs p = (fst p, (snd p)\<lparr>requests := requests (snd p) @ [r \<leftarrow> reqs. userKey r = fst p]\<rparr>)"

definition fresh :: "Request list \<Rightarrow> string \<Rightarrow> string \<times> GroupedRequests" where
  "fresh reqs k = (k, \<lparr>user = getUser (userId (hd [r \<leftarrow> reqs. userKey r = k])),
                       requests = [r \<leftarrow> reqs. userKey r = k]\<rparr>)"

section \<open>Example data\<close>

definition request_of :: "string \<Rightarrow> UserRef \<Rightarrow> string \<Rightarrow> DeliveryStatus option \<Rightarrow> Request" where
  "request_of rid ref st ds =
     \<lparr>r_id = rid, userId = ref, status = st, deliveryStatus = ds, createdAt = None\<rparr>"

definition stub_user :: "string \<Rightarrow> User" where
  "stub_user s = \<lparr>u_id = Some s, firstName = None, surname = None, email = None,
                   phoneNumber = None, avatar = None\<rparr>"

text \<open>A user object as the API embeds it, with identifier and name.\<close>

definition full_user :: User where
  "full_user = \<lparr>u_id = Some ''B'', firstName = Some ''Bea'', surname = Some ''Lind'',
                 email = Some ''bea@example.org'', phoneNumber = None, avatar = None\<rparr>"

definition nameless_user :: User where
  "nameless_user = \<lparr>u_id = None, firstName = Some ''Ann'', surname = None, email = None,
                     phoneNumber = None, avatar = None\<rparr>"

text \<open>
  The scenario of the specification: two pending requests of user A around an accepted
  and delivered request of user B.
\<close>

definition scenario_requests :: "Request list" where
  "scenario_requests =
     [request_of ''1'' (Reference ''A'') ''pending'' None,
      request_of ''2'' (Reference ''B'') ''accept'' (Some DeliveryStatus_Done),
      request_of ''3'' (Reference ''A'') ''pending'' None]"

definition pop_query :: "Request list \<Rightarrow> QueryState" where
  "pop_query reqs =
     \<lparr>popResponse = Some \<lparr>success = True, data = reqs, message = None\<rparr>,
      cocpResponse = None, isPopLoading = False, isCocpLoading = False,
      isPopError = False, isCocpError = False\<rparr>"

text \<open>
  A state whose POP page number is 2, as left behind when the list has shrunk.
\<close>

definition stale_state :: PageState where
  "stale_state =
     \<lparr>activeServiceTab = POP, activeStatusTab = TabStatus_Pending, popPage = 2, cocpPage = 1\<rparr>"

section \<open>Properties of the status filter\<close>

lemmas ServiceStatus_defs =
  ServiceStatus_Pending_def ServiceStatus_Accept_def ServiceStatus_Decline_def

text \<open>
  Claim C1.  For every request list and every status filter, the filtered requests are
  exactly: under Pending, the requests whose approval status is pending; under Declined,
  those whose approval status is declined; under Accepted, those whose approval status is
  accepted and whose delivery status is not done; under DeliveryDone, those whose approval
  status is accepted and whose delivery status is done.  The filter keeps the order and
  the multiplicity of the source list, so the statement is given on lists.
\<close>

theorem filteredRequests_exact:
  "filteredRequests TabStatus_Pending reqs = [r \<leftarrow> reqs. status r = ''pending'']
   \<and> filteredRequests TabStatus_Decline reqs = [r \<leftarrow> reqs. status r = ''decline'']
   \<and> filteredRequests TabStatus_Accept reqs =
       [r \<leftarrow> reqs. status r = ''accept'' \<and> deliveryStatus r \<noteq> Some DeliveryStatus_Done]
   \<and> filteredRequests TabStatus_Done reqs =
       [r \<leftarrow> reqs. status r = ''accept'' \<and> deliveryStatus r = Some DeliveryStatus_Done]
   \<and> set (filteredRequests TabStatus_Pending reqs) = {r \<in> set reqs. status r = ''pending''}
   \<and> set (filteredRequests TabStatus_Decline reqs) = {r \<in> set reqs. status r = ''decline''}
   \<and> set (filteredRequests TabStatus_Accept reqs) =
       {r \<in> set reqs. status r = ''accept'' \<and> deliveryStatus r \<noteq> Some DeliveryStatus_Done}
   \<and> set (filteredRequests TabStatus_Done reqs) =
       {r \<in> set reqs. status r = ''accept'' \<and> deliveryStatus r = Some DeliveryStatus_Done}"
  by (simp add: filteredRequests_def ServiceStatus_defs)

text \<open>
  Claim C4.  For every request list, the requests selected by the Accepted filter and those
  selected by the DeliveryDone filter are disjoint, and together they are exactly the
  requests whose approval status is accepted.
\<close>

theorem accepted_done_partition:
  "set (filteredRequests TabStatus_Accept reqs) \<inter> set (filteredRequests TabStatus_Done reqs) = {}
   \<and> set (filteredRequests TabStatus_Accept reqs) \<union> set (filteredRequests TabStatus_Done reqs)
       = {r \<in> set reqs. status r = ''accept''}
   \<and> mset (filteredRequests TabStatus_Accept reqs) + mset (filteredRequests TabStatus_Done reqs)
       = mset [r \<leftarrow> reqs. status r = ''accept'']"
proof -
  have disj: "set (filteredRequests TabStatus_Accept reqs)
      \<inter> set (filteredRequests TabStatus_Done reqs) = {}"
    by (auto simp: filteredRequests_def)
  have un: "set (filteredRequests TabStatus_Accept reqs)
      \<union> set (filteredRequests TabStatus_Done reqs) = {r \<in> set reqs. status r = ''accept''}"
    by (auto simp: filteredRequests_def ServiceStatus_defs)
  have ms: "mset (filteredRequests TabStatus_Accept reqs)
      + mset (filteredRequests TabStatus_Done reqs) = mset [r \<leftarrow> reqs. status r = ''accept'']"
    by (induction reqs) (auto simp: filteredRequests_def ServiceStatus_defs)
  from disj un ms show ?thesis by blast
qed

section \<open>The map operations\<close>

lemma Map_set_absent: "k \<notin> set (map fst m) \<Longrightarrow> Map_set m k v = m @ [(k, v)]"
  by (induction m) auto

lemma Map_set_present:
  "distinct (map fst m) \<Longrightarrow> map_of m k = Some g \<Longrightarrow>
   Map_set m k (f g) = map (\<lambda>p. if fst p = k then (fst p, f (snd p)) else p) m"
proof (induction m)
  case Nil
  then show ?case by simp
next
  case (Cons p m)
  obtain k' v' where p: "p = (k', v')" by (cases p)
  show ?case
  proof (cases "k' = k")
    case True
    with Cons.prems p have "k \<notin> fst ` set m" "v' = g" by auto
    then have "map (\<lambda>p. if fst p = k then (fst p, f (snd p)) else p) m = m"
      by (intro map_idI) force
    with True p \<open>v' = g\<close> show ?thesis by simp
  next
    case False
    with Cons p show ?thesis by simp
  qed
qed

lemma forEach_body_absent:
  assumes "userKey req \<notin> set (map fst m)"
  shows "forEach_body m req =
    Inr (m @ [(userKey req, \<lparr>user = getUser (userId req), requests = [req]\<rparr>)])"
proof -
  let ?k = "userKey req"
  let ?g = "\<lparr>user = getUser (userId req), requests = []\<rparr>"
  have 1: "Map_set m ?k ?g = m @ [(?k, ?g)]" using assms by (rule Map_set_absent)
  have 2: "map_of (m @ [(?k, ?g)]) ?k = Some ?g"
    using assms by (simp add: map_add_Some_iff map_of_eq_None_iff image_iff)
  have 3: "distinct (map fst (m @ [(?k, ?g)]))" if "distinct (map fst m)"
    using that assms by simp
  have 4: "Map_set (m @ [(?k, ?g)]) ?k v = m @ [(?k, v)]" for v
    using assms by (induction m) auto
  show ?thesis
    using assms 1 2 4 by (simp add: forEach_body_def Let_def Map_has_def Map_get_def userKey_def)
qed

lemma forEach_body_present:
  assumes "distinct (map fst m)" "userKey req \<in> set (map fst m)"
  shows "forEach_body m req =
    Inr (map (\<lambda>p. if fst p = userKey req
                   then (fst p, (snd p)\<lparr>requests := requests (snd p) @ [req]\<rparr>) else p) m)"
proof -
  from assms(2) obtain g where g: "map_of m (userKey req) = Some g"
    by (metis map_of_eq_None_iff not_Some_eq set_map)
  from Map_set_present[OF assms(1) g, of "\<lambda>g. g\<lparr>requests := requests g @ [req]\<rparr>"] g assms(2)
  show ?thesis
    by (simp add: forEach_body_def Let_def Map_has_def Map_get_def userKey_def)
qed

section \<open>The grouping loop\<close>

lemma set_first_occurrences: "set (first_occurrences xs) = set xs"
  by (induction xs rule: first_occurrences.induct) auto

lemma distinct_first_occurrences: "distinct (first_occurrences xs)"
  by (induction xs rule: first_occurrences.induct) (auto simp: set_first_occurrences)

lemma remdups_snoc: "remdups (ys @ [x]) = remdups [y \<leftarrow> ys. y \<noteq> x] @ [x]"
  by (induction ys) auto

lemma first_occurrences_remdups: "first_occurrences xs = rev (remdups (rev xs))"
proof (induction xs rule: first_occurrences.induct)
  case 1
  show ?case by simp
next
  case (2 x xs)
  have "remdups (rev xs @ [x]) = remdups [y \<leftarrow> rev xs. y \<noteq> x] @ [x]"
    by (rule remdups_snoc)
  then show ?case using 2 by (simp add: rev_filter)
qed

lemma fresh_Cons_other:
  "userKey req \<notin> set ks \<Longrightarrow> map (fresh (req # rest)) ks = map (fresh rest) ks"
  by (induction ks) (auto simp: fresh_def)

lemma grow_Cons_other:
  "userKey req \<notin> set (map fst m) \<Longrightarrow> map (grow (req # rest)) m = map (grow rest) m"
  by (induction m) (auto simp: grow_def)

text \<open>
  The loop invariant in closed form, for any map with distinct keys at the start.
\<close>

lemma forEach_general:
  "distinct (map fst m) \<Longrightarrow>
   forEach m reqs =
     Inr (map (grow reqs) m
          @ map (fresh reqs) (first_occurrences [k \<leftarrow> map userKey reqs. k \<notin> set (map fst m)]))"
proof (induction reqs arbitrary: m)
  case Nil
  have "map (grow []) m = m" by (intro map_idI) (simp add: grow_def)
  then show ?case by simp
next
  case (Cons req rest)
  let ?k = "userKey req"
  let ?new = "first_occurrences [k \<leftarrow> map userKey rest. k \<notin> set (map fst m)]"
  show ?case
  proof (cases "?k \<in> set (map fst m)")
    case True
    let ?m1 = "map (\<lambda>p. if fst p = ?k
                   then (fst p, (snd p)\<lparr>requests := requests (snd p) @ [req]\<rparr>) else p) m"
    have body: "forEach_body m req = Inr ?m1"
      using Cons.prems True by (rule forEach_body_present)
    have keys: "map fst ?m1 = map fst m" by (induction m) auto
    have grown: "map (grow rest) ?m1 = map (grow (req # rest)) m"
      by (induction m) (auto simp: grow_def)
    have "?k \<notin> set ?new" using True by (simp add: set_first_occurrences)
    then have news: "map (fresh (req # rest)) ?new = map (fresh rest) ?new"
      by (rule fresh_Cons_other)
    from Cons.prems have "distinct (map fst ?m1)" by (simp only: keys)
    from Cons.IH[OF this] have "forEach ?m1 rest =
        Inr (map (grow (req # rest)) m @ map (fresh (req # rest)) ?new)"
      by (simp only: keys grown news)
    with body True show ?thesis by simp
  next
    case False
    let ?m1 = "m @ [(?k, \<lparr>user = getUser (userId req), requests = [req]\<rparr>)]"
    let ?new1 = "first_occurrences [k \<leftarrow> map userKey rest. k \<notin> set (map fst ?m1)]"
    have body: "forEach_body m req = Inr ?m1"
      using False by (rule forEach_body_absent)
    have d: "distinct (map fst ?m1)" using Cons.prems False by simp
    have grown: "map (grow rest) ?m1 = map (grow (req # rest)) m @ [fresh (req # rest) ?k]"
      using grow_Cons_other[OF False] by (simp add: grow_def fresh_def)
    have flt: "[k \<leftarrow> map userKey rest. k \<notin> set (map fst ?m1)]
        = filter (\<lambda>y. y \<noteq> ?k) [k \<leftarrow> map userKey rest. k \<notin> set (map fst m)]"
      by (simp add: conj_commute)
    have keys: "first_occurrences [k \<leftarrow> map userKey (req # rest). k \<notin> set (map fst m)]
        = ?k # ?new1"
      using False flt by simp
    have "?k \<notin> set ?new1" by (simp add: set_first_occurrences)
    then have news: "map (fresh (req # rest)) ?new1 = map (fresh rest) ?new1"
      by (rule fresh_Cons_other)
    from Cons.IH[OF d] have "forEach ?m1 rest =
        Inr (map (grow (req # rest)) m @ fresh (req # rest) ?k # map (fresh (req # rest)) ?new1)"
      by (simp only: grown news append_Cons append_Nil append_assoc)
    with body show ?thesis unfolding keys by simp
  qed
qed

lemma groupedRequests_closed_form:
  "groupedRequests reqs = Inr (map (group_of reqs) (first_occurrences (map userKey reqs)))"
proof -
  have "forEach [] reqs = Inr (map (fresh reqs) (first_occurrences (map userKey reqs)))"
    using forEach_general[of "[]" reqs] by simp
  moreover have "snd \<circ> fresh reqs = group_of reqs"
    by (rule ext) (simp add: fresh_def group_of_def)
  ultimately show ?thesis
    by (simp add: groupedRequests_def Map_values_def)
qed

lemma userId_of_group_of:
  "k \<in> set (map userKey reqs) \<Longrightarrow> userId_of (user (group_of reqs k)) = k"
proof -
  assume "k \<in> set (map userKey reqs)"
  then have ne: "[r \<leftarrow> reqs. userKey r = k] \<noteq> []"
    by (auto simp: filter_empty_conv)
  then have "hd [r \<leftarrow> reqs. userKey r = k] \<in> set [r \<leftarrow> reqs. userKey r = k]"
    by (rule hd_in_set)
  then have "userKey (hd [r \<leftarrow> reqs. userKey r = k]) = k" by simp
  then show ?thesis by (simp add: group_of_def userKey_def)
qed

lemma group_keys:
  "map (\<lambda>g. userId_of (user g)) (map (group_of reqs) (first_occurrences (map userKey reqs)))
    = first_occurrences (map userKey reqs)"
proof -
  have "\<forall>k \<in> set (first_occurrences (map userKey reqs)).
      userId_of (user (group_of reqs k)) = k"
    using userId_of_group_of by (simp add: set_first_occurrences)
  then show ?thesis by (simp add: map_idI)
qed

lemma mset_concat_filter:
  "distinct ks \<Longrightarrow>
   mset (concat (map (\<lambda>k. [r \<leftarrow> reqs. f r = k]) ks)) = mset [r \<leftarrow> reqs. f r \<in> set ks]"
proof (induction ks)
  case Nil
  show ?case by simp
next
  case (Cons k ks)
  then have "k \<notin> set ks" by simp
  then have "mset [r \<leftarrow> reqs. f r = k] + mset [r \<leftarrow> reqs. f r \<in> set ks]
      = mset [r \<leftarrow> reqs. f r = k \<or> f r \<in> set ks]"
    by (induction reqs) auto
  with Cons show ?case by simp
qed

lemma mset_groups:
  "mset (concat (map requests (map (group_of reqs) (first_occurrences (map userKey reqs)))))
     = mset reqs"
proof -
  have "requests \<circ> group_of reqs = (\<lambda>k. [r \<leftarrow> reqs. userKey r = k])"
    by (rule ext) (simp add: group_of_def)
  then show ?thesis
    using mset_concat_filter[OF distinct_first_occurrences, of userKey reqs "map userKey reqs"]
    by (simp add: set_first_occurrences)
qed

lemma set_groups:
  "groupedRequests reqs = Inr gs \<Longrightarrow> set (concat (map requests gs)) = set reqs"
proof -
  assume "groupedRequests reqs = Inr gs"
  then have "gs = map (group_of reqs) (first_occurrences (map userKey reqs))"
    by (simp add: groupedRequests_closed_form)
  then have "mset (concat (map requests gs)) = mset reqs"
    by (simp only: mset_groups)
  then show ?thesis by (rule mset_eq_setD)
qed

lemmas grouping_defs =
  groupedRequests_def forEach_body_def Map_has_def Map_get_def Map_values_def
  getUser_def userId_of_def request_of_def Let_def

text \<open>
  The scenario of the specification: the Pending filter yields one group for user A with
  the two requests 1 and 3, in that order.
\<close>

lemma scenario_pending_groups:
  "groupedRequests (filteredRequests TabStatus_Pending scenario_requests) =
     Inr [\<lparr>user = stub_user ''A'',
           requests = [request_of ''1'' (Reference ''A'') ''pending'' None,
                       request_of ''3'' (Reference ''A'') ''pending'' None]\<rparr>]"
  by (simp add: scenario_requests_def filteredRequests_def ServiceStatus_defs grouping_defs
      stub_user_def)

lemma userKey_explicit:
  "userKey req =
     (case userId req of
        Embedded u \<Rightarrow>
          (case u_id u of None \<Rightarrow> ''unknown'' | Some i \<Rightarrow> if i = [] then ''unknown'' else i)
      | Reference s \<Rightarrow> if s = [] then ''unknown'' else s)"
  by (cases "userId req") (simp_all add: userKey_def getUser_def userId_of_def)

lemma getUser_explicit:
  "getUser ref =
     (case ref of
        Embedded u \<Rightarrow> u
      | Reference s \<Rightarrow> \<lparr>u_id = Some s, firstName = None, surname = None, email = None,
                         phoneNumber = None, avatar = None\<rparr>)"
  by (simp add: getUser_def)

lemma length_first_occurrences: "length (first_occurrences xs) = card (set xs)"
  using distinct_card[OF distinct_first_occurrences, of xs] by (simp add: set_first_occurrences)

text \<open>
  Claim C2.  For every filtered request sequence, grouping succeeds and produces one group
  per distinct resolved user identifier, so the number of groups is the number of distinct
  identifiers.  The group of an identifier carries the user summary resolved from the first
  request of that identifier (the embedded user object if present, else a stub holding only
  the identifier) and the requests of that identifier in source order; the groups appear in
  the order in which their identifiers first occur.  The statement also says what the
  resolution computes: \<open>getUser\<close> returns the embedded object or the stub, and the
  resolved identifier is the \<^verbatim>\<open>_id\<close> of that summary, or \<^verbatim>\<open>"unknown"\<close> when
  it is missing or empty.  The last conjunct repeats the result with both written out.
\<close>

theorem groupedRequests_first_seen:
  "groupedRequests filtered =
     Inr (map (\<lambda>k. \<lparr>user = getUser (userId (hd [r \<leftarrow> filtered. userKey r = k])),
                      requests = [r \<leftarrow> filtered. userKey r = k]\<rparr>)
              (rev (remdups (rev (map userKey filtered)))))
   \<and> (\<exists>gs. groupedRequests filtered = Inr gs
         \<and> map (\<lambda>g. userId_of (user g)) gs = rev (remdups (rev (map userKey filtered)))
         \<and> distinct (map (\<lambda>g. userId_of (user g)) gs)
         \<and> length gs = card (userKey ` set filtered))
   \<and> getUser (Embedded u) = u
   \<and> getUser (Reference s) =
       \<lparr>u_id = Some s, firstName = None, surname = None, email = None,
        phoneNumber = None, avatar = None\<rparr>
   \<and> userId_of usr =
       (case u_id usr of None \<Rightarrow> ''unknown'' | Some i \<Rightarrow> if i = [] then ''unknown'' else i)
   \<and> userKey req =
       (case userId req of
          Embedded e \<Rightarrow>
            (case u_id e of None \<Rightarrow> ''unknown'' | Some i \<Rightarrow> if i = [] then ''unknown'' else i)
        | Reference i \<Rightarrow> if i = [] then ''unknown'' else i)
   \<and> groupedRequests filtered =
     Inr (map (\<lambda>k. \<lparr>user =
                       (case userId (hd [r \<leftarrow> filtered.
                           (case userId r of
                              Embedded e \<Rightarrow>
                                (case u_id e of None \<Rightarrow> ''unknown''
                                 | Some i \<Rightarrow> if i = [] then ''unknown'' else i)
                            | Reference i \<Rightarrow> if i = [] then ''unknown'' else i) = k]) of
                          Embedded e \<Rightarrow> e
                        | Reference i \<Rightarrow>
                            \<lparr>u_id = Some i, firstName = None, surname = None, email = None,
                             phoneNumber = None, avatar = None\<rparr>),
                      requests =
                        [r \<leftarrow> filtered.
                           (case userId r of
                              Embedded e \<Rightarrow>
                                (case u_id e of None \<Rightarrow> ''unknown''
                                 | Some i \<Rightarrow> if i = [] then ''unknown'' else i)
                            | Reference i \<Rightarrow> if i = [] then ''unknown'' else i) = k]\<rparr>)
              (rev (remdups (rev (map
                 (\<lambda>r. case userId r of
                         Embedded e \<Rightarrow>
                           (case u_id e of None \<Rightarrow> ''unknown''
                            | Some i \<Rightarrow> if i = [] then ''unknown'' else i)
                       | Reference i \<Rightarrow> if i = [] then ''unknown'' else i) filtered)))))"
proof -
  let ?ks = "first_occurrences (map userKey filtered)"
  have cf: "groupedRequests filtered = Inr (map (group_of filtered) ?ks)"
    by (rule groupedRequests_closed_form)
  have ks: "?ks = rev (remdups (rev (map userKey filtered)))"
    by (rule first_occurrences_remdups)
  have fn: "group_of filtered =
      (\<lambda>k. \<lparr>user = getUser (userId (hd [r \<leftarrow> filtered. userKey r = k])),
             requests = [r \<leftarrow> filtered. userKey r = k]\<rparr>)"
    by (rule ext) (simp add: group_of_def)
  have keys: "map (\<lambda>g. userId_of (user g)) (map (group_of filtered) ?ks) = ?ks"
    by (rule group_keys)
  have d: "distinct ?ks" by (rule distinct_first_occurrences)
  have first: "groupedRequests filtered =
     Inr (map (\<lambda>k. \<lparr>user = getUser (userId (hd [r \<leftarrow> filtered. userKey r = k])),
                      requests = [r \<leftarrow> filtered. userKey r = k]\<rparr>)
              (rev (remdups (rev (map userKey filtered)))))"
    using cf by (simp only: fn ks)
  have second: "\<exists>gs. groupedRequests filtered = Inr gs
         \<and> map (\<lambda>g. userId_of (user g)) gs = rev (remdups (rev (map userKey filtered)))
         \<and> distinct (map (\<lambda>g. userId_of (user g)) gs)
         \<and> length gs = card (userKey ` set filtered)"
  proof (intro exI conjI)
    show "groupedRequests filtered = Inr (map (group_of filtered) ?ks)" by (rule cf)
    show "map (\<lambda>g. userId_of (user g)) (map (group_of filtered) ?ks)
        = rev (remdups (rev (map userKey filtered)))"
      using keys ks by simp
    show "distinct (map (\<lambda>g. userId_of (user g)) (map (group_of filtered) ?ks))"
      using keys d by simp
    show "length (map (group_of filtered) ?ks) = card (userKey ` set filtered)"
      by (simp add: length_first_occurrences)
  qed
  have g1: "getUser (Embedded u) = u" by (simp add: getUser_def)
  have g2: "getUser (Reference s) =
       \<lparr>u_id = Some s, firstName = None, surname = None, email = None,
        phoneNumber = None, avatar = None\<rparr>" by (simp add: getUser_def)
  have u: "userId_of usr =
       (case u_id usr of None \<Rightarrow> ''unknown'' | Some i \<Rightarrow> if i = [] then ''unknown'' else i)"
    by (simp add: userId_of_def)
  have k: "userKey req =
       (case userId req of
          Embedded e \<Rightarrow>
            (case u_id e of None \<Rightarrow> ''unknown'' | Some i \<Rightarrow> if i = [] then ''unknown'' else i)
        | Reference i \<Rightarrow> if i = [] then ''unknown'' else i)"
    by (rule userKey_explicit)
  have kf: "userKey = (\<lambda>r. case userId r of
                         Embedded e \<Rightarrow>
                           (case u_id e of None \<Rightarrow> ''unknown''
                            | Some i \<Rightarrow> if i = [] then ''unknown'' else i)
                       | Reference i \<Rightarrow> if i = [] then ''unknown'' else i)"
    by (rule ext) (rule userKey_explicit)
  have gf: "getUser = (\<lambda>ref. case ref of
        Embedded e \<Rightarrow> e
      | Reference i \<Rightarrow> \<lparr>u_id = Some i, firstName = None, surname = None, email = None,
                         phoneNumber = None, avatar = None\<rparr>)"
    by (rule ext) (rule getUser_explicit)
  note explicit = first[unfolded kf gf]
  from first second g1 g2 u k explicit show ?thesis by (intro conjI)
qed

text \<open>
  The theorem at three requests of two users, one referenced by a bare identifier and one
  embedded: two groups, in first-occurrence order, with the stub and the embedded object.
\<close>

theorem groupedRequests_first_seen_witness:
  "groupedRequests
     [request_of ''1'' (Reference ''A'') ''pending'' None,
      request_of ''2'' (Embedded full_user) ''pending'' None,
      request_of ''3'' (Reference ''A'') ''pending'' None] =
   Inr [\<lparr>user = stub_user ''A'',
         requests = [request_of ''1'' (Reference ''A'') ''pending'' None,
                     request_of ''3'' (Reference ''A'') ''pending'' None]\<rparr>,
        \<lparr>user = full_user,
         requests = [request_of ''2'' (Embedded full_user) ''pending'' None]\<rparr>]"
  using groupedRequests_first_seen[of
     "[request_of ''1'' (Reference ''A'') ''pending'' None,
       request_of ''2'' (Embedded full_user) ''pending'' None,
       request_of ''3'' (Reference ''A'') ''pending'' None]"]
  by (simp add: request_of_def stub_user_def full_user_def userKey_def getUser_def userId_of_def)

text \<open>
  Claim C6.  Grouping never drops a request: the groups together hold exactly the requests
  of the filtered sequence, every request lies in exactly one group, which is the group of
  its own key, and a request whose user reference resolves to no identifier (none, or the
  empty string) lies in the group keyed \<^verbatim>\<open>"unknown"\<close>.
\<close>

theorem groupedRequests_keeps_every_request:
  "\<exists>gs. groupedRequests filtered = Inr gs
     \<and> mset (concat (map requests gs)) = mset filtered
     \<and> distinct (map (\<lambda>g. userId_of (user g)) gs)
     \<and> (\<forall>g \<in> set gs. \<forall>r \<in> set (requests g). userKey r = userId_of (user g))
     \<and> (\<forall>r \<in> set filtered. \<exists>!g. g \<in> set gs \<and> r \<in> set (requests g))
     \<and> (\<forall>r \<in> set filtered.
           u_id (getUser (userId r)) = None \<or> u_id (getUser (userId r)) = Some [] \<longrightarrow>
           (\<exists>g \<in> set gs. userId_of (user g) = ''unknown'' \<and> r \<in> set (requests g)))"
proof -
  let ?ks = "first_occurrences (map userKey filtered)"
  let ?gs = "map (group_of filtered) ?ks"
  have cf: "groupedRequests filtered = Inr ?gs"
    by (rule groupedRequests_closed_form)
  have ms: "mset (concat (map requests ?gs)) = mset filtered"
    by (rule mset_groups)
  have keys: "map (\<lambda>g. userId_of (user g)) ?gs = ?ks"
    by (rule group_keys)
  have d: "distinct (map (\<lambda>g. userId_of (user g)) ?gs)"
    unfolding keys by (rule distinct_first_occurrences)
  have own: "userKey r = userId_of (user g)" if "g \<in> set ?gs" "r \<in> set (requests g)" for g r
  proof -
    from that(1) obtain k where k: "k \<in> set (map userKey filtered)" "g = group_of filtered k"
      by (auto simp: set_first_occurrences)
    from that(2) k(2) have "userKey r = k" by (simp add: group_of_def)
    with userId_of_group_of[OF k(1)] k(2) show ?thesis by simp
  qed
  have home: "group_of filtered (userKey r) \<in> set ?gs
      \<and> r \<in> set (requests (group_of filtered (userKey r)))" if "r \<in> set filtered" for r
    using that by (simp add: set_first_occurrences group_of_def)
  have uniq: "\<exists>!g. g \<in> set ?gs \<and> r \<in> set (requests g)" if "r \<in> set filtered" for r
  proof (rule ex1I[of _ "group_of filtered (userKey r)"])
    show "group_of filtered (userKey r) \<in> set ?gs
        \<and> r \<in> set (requests (group_of filtered (userKey r)))"
      using that by (rule home)
  next
    fix g
    assume g: "g \<in> set ?gs \<and> r \<in> set (requests g)"
    then obtain k where k: "g = group_of filtered k" by auto
    with g have "userKey r = k" by (simp add: group_of_def)
    with k show "g = group_of filtered (userKey r)" by simp
  qed
  have unk: "\<exists>g \<in> set ?gs. userId_of (user g) = ''unknown'' \<and> r \<in> set (requests g)"
    if "r \<in> set filtered"
      "u_id (getUser (userId r)) = None \<or> u_id (getUser (userId r)) = Some []" for r
  proof -
    from that(2) have "userKey r = ''unknown''"
      by (auto simp: userKey_def userId_of_def)
    moreover from that(1) have "userKey r \<in> set (map userKey filtered)" by simp
    ultimately have "userId_of (user (group_of filtered (userKey r))) = ''unknown''"
      using userId_of_group_of by metis
    with home[OF that(1)] show ?thesis by blast
  qed
  from cf ms d own uniq unk show ?thesis by blast
qed

text \<open>
  The theorem at a list of two requests, the second with an embedded user that has no
  identifier.
\<close>

theorem groupedRequests_keeps_every_request_witness:
  "request_of ''4'' (Embedded nameless_user) ''pending'' None
     \<in> set [request_of ''1'' (Reference ''A'') ''pending'' None,
            request_of ''4'' (Embedded nameless_user) ''pending'' None]
   \<and> u_id (getUser (userId (request_of ''4'' (Embedded nameless_user) ''pending'' None))) = None
   \<and> (\<exists>gs. groupedRequests [request_of ''1'' (Reference ''A'') ''pending'' None,
                              request_of ''4'' (Embedded nameless_user) ''pending'' None] = Inr gs
         \<and> (\<exists>g \<in> set gs. userId_of (user g) = ''unknown''
               \<and> request_of ''4'' (Embedded nameless_user) ''pending'' None \<in> set (requests g))
         \<and> (\<exists>!g. g \<in> set gs
               \<and> request_of ''4'' (Embedded nameless_user) ''pending'' None \<in> set (requests g)))"
proof -
  let ?r1 = "request_of ''1'' (Reference ''A'') ''pending'' None"
  let ?r4 = "request_of ''4'' (Embedded nameless_user) ''pending'' None"
  have m: "?r4 \<in> set [?r1, ?r4]" by simp
  have u: "u_id (getUser (userId ?r4)) = None"
    by (simp add: request_of_def getUser_def nameless_user_def)
  from groupedRequests_keeps_every_request[of "[?r1, ?r4]"] m u
  have "\<exists>gs. groupedRequests [?r1, ?r4] = Inr gs
         \<and> (\<exists>g \<in> set gs. userId_of (user g) = ''unknown'' \<and> ?r4 \<in> set (requests g))
         \<and> (\<exists>!g. g \<in> set gs \<and> ?r4 \<in> set (requests g))"
    by blast
  with m u show ?thesis by blast
qed

section \<open>Properties of the pagination\<close>

lemma ceil_div_int:
  fixes a b :: int
  assumes "0 < b"
  shows "- (- a div b) = (a + b - 1) div b"
proof (cases "a mod b = 0")
  case True
  have "a + b - 1 = b * (a div b) + (b - 1)" using True
    using mult_div_mod_eq[of b a] by simp
  then have "(a + b - 1) div b = a div b"
    by (rule int_div_pos_eq) (use assms in simp_all)
  moreover have "- a div b = - (a div b)"
    using True assms by (simp add: zdiv_zminus1_eq_if)
  ultimately show ?thesis by simp
next
  case False
  have "0 \<le> a mod b" "a mod b < b" using assms by simp_all
  with False have m: "0 \<le> a mod b - 1" "a mod b - 1 < b" by simp_all
  have "a = b * (a div b) + a mod b" by simp
  then have "a + b - 1 = b * (a div b + 1) + (a mod b - 1)"
    by (simp add: algebra_simps)
  then have "(a + b - 1) div b = a div b + 1"
    using m by (rule int_div_pos_eq)
  moreover have "- a div b = - (a div b) - 1"
    using False assms by (simp add: zdiv_zminus1_eq_if)
  ultimately show ?thesis by simp
qed

lemma totalPage_div:
  "0 < limit \<Longrightarrow> totalPage limit n = (int n + limit - 1) div limit"
  unfolding totalPage_def
  using ceiling_divide_eq_div[of "int n" limit] ceil_div_int[of limit "int n"] by simp

lemma slice_page:
  assumes "0 \<le> a" "a \<le> b"
  shows "slice xs a b = take (nat (b - a)) (drop (nat a) xs)"
proof (cases "int (length xs) \<le> a")
  case True
  with assms show ?thesis by (simp add: slice_def Let_def min_def)
next
  case False
  with assms have "take (nat (min b (int (length xs)) - a)) (drop (nat a) xs)
      = take (nat (b - a)) (drop (nat a) xs)"
    by (cases "b \<le> int (length xs)") (simp_all add: min_def)
  with False assms show ?thesis by (simp add: slice_def Let_def min_def)
qed

lemma filter_upt_less: "[i \<leftarrow> [a..<b]. i < l] = [a..<min b l]"
  by (induction b) auto

lemma take_drop_nth:
  "take n (drop s xs) = map (\<lambda>i. xs ! i) [i \<leftarrow> [s..<s + n]. i < length xs]"
proof -
  have "take n (drop s xs) = take n (drop s (map (\<lambda>i. xs ! i) [0..<length xs]))"
    by (simp add: map_nth)
  also have "\<dots> = map (\<lambda>i. xs ! i) (take n [s..<length xs])"
    by (simp add: take_map drop_map)
  also have "take n [s..<length xs] = [s..<min (s + n) (length xs)]"
    by (cases "s + n \<le> length xs") (simp_all add: min_def)
  finally show ?thesis by (simp add: filter_upt_less)
qed

lemma groupsToDisplay_take_drop:
  assumes "0 < ps" "1 \<le> p"
  shows "groupsToDisplay ps p gs = take (nat ps) (drop (nat ((p - 1) * ps)) gs)"
proof -
  have "0 \<le> (p - 1) * ps" using assms by simp
  moreover have "(p - 1) * ps \<le> (p - 1) * ps + ps" using assms by simp
  ultimately show ?thesis
    using slice_page[of "(p - 1) * ps" "(p - 1) * ps + ps" gs]
    by (simp add: groupsToDisplay_def startIndex_def endIndex_def)
qed

text \<open>
  Claim C3.  Pagination ranges over groups: for every group list and every positive page
  size, the number of pages is the number of groups divided by the page size and rounded
  up (zero for the empty list), and the page \<open>p \<ge> 1\<close> shows exactly the groups at the
  indices from \<open>(p - 1) * pageSize\<close> up to but excluding \<open>p * pageSize\<close>.  With
  page size 10 and 25 groups there are 3 pages and page 3 holds 5 groups.  The component
  applies both to the list of groups, with page size \<open>localLimit\<close>.
\<close>

theorem pagination_over_groups:
  assumes "0 < ps" and "1 \<le> p"
  shows "totalPage ps (length gs) = (int (length gs) + ps - 1) div ps
    \<and> totalPage ps (length ([] :: GroupedRequests list)) = 0
    \<and> groupsToDisplay ps p gs =
        map (\<lambda>i. gs ! i) [i \<leftarrow> [nat ((p - 1) * ps) ..< nat (p * ps)]. i < length gs]
    \<and> (length gs = 25 \<longrightarrow>
          totalPage localLimit (length gs) = 3 \<and> length (groupsToDisplay localLimit 3 gs) = 5)
    \<and> (\<exists>grouped. OurServicePage_grouped st q = Inr grouped
          \<and> OurServicePage_totalPage st q = Inr (totalPage localLimit (length grouped))
          \<and> OurServicePage_groupsToDisplay st q =
              Inr (groupsToDisplay localLimit (currentPage st) grouped))"
proof -
  have tp: "totalPage ps (length gs) = (int (length gs) + ps - 1) div ps"
    using assms(1) by (rule totalPage_div)
  have zero: "totalPage ps (length ([] :: GroupedRequests list)) = 0"
    by (simp add: totalPage_def)
  have "nat ((p - 1) * ps) + nat ps = nat (p * ps)"
  proof -
    have "0 \<le> (p - 1) * ps" using assms by simp
    then have "nat ((p - 1) * ps) + nat ps = nat ((p - 1) * ps + ps)"
      using assms(1) by (simp add: nat_add_distrib)
    also have "(p - 1) * ps + ps = p * ps" by (simp add: algebra_simps)
    finally show ?thesis .
  qed
  then have page: "groupsToDisplay ps p gs =
        map (\<lambda>i. gs ! i) [i \<leftarrow> [nat ((p - 1) * ps) ..< nat (p * ps)]. i < length gs]"
    using groupsToDisplay_take_drop[OF assms, of gs]
      take_drop_nth[of "nat ps" "nat ((p - 1) * ps)" gs] by simp
  have ex: "totalPage localLimit (length gs) = 3 \<and> length (groupsToDisplay localLimit 3 gs) = 5"
    if "length gs = 25"
  proof -
    have "totalPage localLimit (length gs) = 3"
      using that totalPage_div[of localLimit "length gs"] by (simp add: localLimit_def)
    moreover have "groupsToDisplay localLimit 3 gs = take 10 (drop 20 gs)"
      using groupsToDisplay_take_drop[of localLimit 3 gs] by (simp add: localLimit_def)
    ultimately show ?thesis using that by simp
  qed
  have comp: "\<exists>grouped. OurServicePage_grouped st q = Inr grouped
          \<and> OurServicePage_totalPage st q = Inr (totalPage localLimit (length grouped))
          \<and> OurServicePage_groupsToDisplay st q =
              Inr (groupsToDisplay localLimit (currentPage st) grouped)"
    by (simp add: OurServicePage_grouped_def OurServicePage_totalPage_def
        OurServicePage_groupsToDisplay_def groupedRequests_closed_form)
  from tp zero page ex comp show ?thesis by blast
qed

text \<open>
  The theorem at page size 10, page 3 and a list of 25 groups.
\<close>

theorem pagination_over_groups_witness:
  "(0::int) < 10 \<and> (1::int) \<le> 3
   \<and> length (replicate 25 \<lparr>user = stub_user ''A'', requests = scenario_requests\<rparr>) = 25
   \<and> totalPage 10 (length (replicate 25 \<lparr>user = stub_user ''A'', requests = scenario_requests\<rparr>)) = 3
   \<and> length (groupsToDisplay 10 3
        (replicate 25 \<lparr>user = stub_user ''A'', requests = scenario_requests\<rparr>)) = 5"
  using pagination_over_groups[of 10 3
      "replicate 25 \<lparr>user = stub_user ''A'', requests = scenario_requests\<rparr>"]
  by (simp add: localLimit_def)

text \<open>
  Claim C9.  Page selection is total and is not clamped against the data: for every page
  \<open>p \<ge> 1\<close> whose start index \<open>(p - 1) * pageSize\<close> is at least the number of
  groups, the displayed group list is empty, no error occurs, and a component that is
  neither loading nor failed renders the state \<^verbatim>\<open>No ... requests found\<close>.
\<close>

theorem stale_page_shows_empty_state:
  assumes "0 < ps" and "1 \<le> p" and "int (length gs) \<le> (p - 1) * ps"
  shows "groupsToDisplay ps p gs = []
    \<and> groupedView False False (groupsToDisplay ps p gs) = NoRequestsFound
    \<and> (\<forall>st q. ps = localLimit \<and> currentPage st = p
                \<and> OurServicePage_grouped st q = Inr gs
                \<and> \<not> isLoading st q \<and> \<not> isError st q
           \<longrightarrow> OurServicePage_groupsToDisplay st q = Inr []
               \<and> OurServicePage_view st q = Inr NoRequestsFound)"
proof -
  have "length gs \<le> nat ((p - 1) * ps)" using assms(3) by linarith
  then have empty: "groupsToDisplay ps p gs = []"
    using groupsToDisplay_take_drop[OF assms(1,2), of gs] by simp
  then have view: "groupedView False False (groupsToDisplay ps p gs) = NoRequestsFound"
    by (simp add: groupedView_def)
  have comp: "OurServicePage_groupsToDisplay st q = Inr []
      \<and> OurServicePage_view st q = Inr NoRequestsFound"
    if "ps = localLimit" "currentPage st = p" "OurServicePage_grouped st q = Inr gs"
      "\<not> isLoading st q" "\<not> isError st q" for st q
    using that empty
    by (simp add: OurServicePage_groupsToDisplay_def OurServicePage_view_def groupedView_def)
  from empty view comp show ?thesis by blast
qed

lemma scenario_grouped:
  "OurServicePage_grouped (stale_state\<lparr>popPage := pg\<rparr>) (pop_query scenario_requests) =
     Inr [\<lparr>user = stub_user ''A'',
           requests = [request_of ''1'' (Reference ''A'') ''pending'' None,
                       request_of ''3'' (Reference ''A'') ''pending'' None]\<rparr>]"
  using scenario_pending_groups
  by (simp add: OurServicePage_grouped_def stale_state_def allRequests_def responseData_def
      pop_query_def)

text \<open>
  The theorem at the scenario with the Pending tab on page 2: the view is the empty state,
  although page 1 holds a group.
\<close>

theorem stale_page_shows_empty_state_witness:
  "(0::int) < localLimit \<and> (1::int) \<le> 2
   \<and> currentPage stale_state = 2
   \<and> OurServicePage_grouped stale_state (pop_query scenario_requests) =
       Inr [\<lparr>user = stub_user ''A'',
             requests = [request_of ''1'' (Reference ''A'') ''pending'' None,
                         request_of ''3'' (Reference ''A'') ''pending'' None]\<rparr>]
   \<and> OurServicePage_view stale_state (pop_query scenario_requests) = Inr NoRequestsFound
   \<and> OurServicePage_view (stale_state\<lparr>popPage := 1\<rparr>) (pop_query scenario_requests) =
       Inr (GroupList [\<lparr>user = stub_user ''A'',
             requests = [request_of ''1'' (Reference ''A'') ''pending'' None,
                         request_of ''3'' (Reference ''A'') ''pending'' None]\<rparr>])"
proof -
  let ?gs = "[\<lparr>user = stub_user ''A'',
             requests = [request_of ''1'' (Reference ''A'') ''pending'' None,
                         request_of ''3'' (Reference ''A'') ''pending'' None]\<rparr>]"
  have g: "OurServicePage_grouped stale_state (pop_query scenario_requests) = Inr ?gs"
    using scenario_grouped[of 2] by (simp add: stale_state_def)
  have h: "(0::int) < localLimit" "(1::int) \<le> 2" "int (length ?gs) \<le> (2 - 1) * localLimit"
    by (simp_all add: localLimit_def)
  have c: "currentPage stale_state = 2" by (simp add: currentPage_def stale_state_def)
  have l: "\<not> isLoading stale_state (pop_query scenario_requests)"
    "\<not> isError stale_state (pop_query scenario_requests)"
    by (simp_all add: isLoading_def isError_def stale_state_def pop_query_def)
  from stale_page_shows_empty_state[OF h] c g l
  have v: "OurServicePage_view stale_state (pop_query scenario_requests) = Inr NoRequestsFound"
    by blast
  have first: "OurServicePage_view (stale_state\<lparr>popPage := 1\<rparr>) (pop_query scenario_requests) =
       Inr (GroupList ?gs)"
    using scenario_grouped[of 1]
    by (simp add: OurServicePage_view_def OurServicePage_groupsToDisplay_def groupedView_def
        groupsToDisplay_def slice_def startIndex_def endIndex_def localLimit_def currentPage_def
        isLoading_def isError_def stale_state_def pop_query_def)
  from h(1,2) c g v first show ?thesis by blast
qed

section \<open>Properties of the badge counts\<close>

lemma allRequests_pages [simp]:
  "allRequests (st\<lparr>popPage := p1\<rparr>) q = allRequests st q"
  "allRequests (st\<lparr>cocpPage := p2\<rparr>) q = allRequests st q"
  "allRequests (st\<lparr>activeStatusTab := t\<rparr>) q = allRequests st q"
  by (simp_all add: allRequests_def responseData_def)

lemma getTabCount_filtered: "getTabCount reqs tab = length (filteredRequests tab reqs)"
  by (cases tab) (simp_all add: getTabCount_def filteredRequests_def)

lemma tab_counts_sum:
  "getTabCount reqs TabStatus_Pending + getTabCount reqs TabStatus_Accept
     + getTabCount reqs TabStatus_Decline + getTabCount reqs TabStatus_Done
   = length [x \<leftarrow> reqs. status x = ''pending'' \<or> status x = ''accept'' \<or> status x = ''decline'']"
  by (induction reqs) (auto simp: getTabCount_def ServiceStatus_defs)

lemma getTabCount_append:
  "getTabCount (xs @ ys) tab = getTabCount xs tab + getTabCount ys tab"
  by (cases tab) (simp_all add: getTabCount_def)

text \<open>
  Claim C5.  For every request list and every tab, the badge count is the number of
  individual requests of the full unfiltered list that satisfy the tab's filter condition,
  and it depends neither on the page numbers nor on the selected status tab.
\<close>

theorem tabCount_over_all_requests:
  "getTabCount reqs tab = length (filteredRequests tab reqs)
   \<and> OurServicePage_tabCount st q tab = length (filteredRequests tab (allRequests st q))
   \<and> OurServicePage_tabCount (st\<lparr>popPage := p1, cocpPage := p2\<rparr>) q tab
       = OurServicePage_tabCount st q tab
   \<and> OurServicePage_tabCount (setPage p st) q tab = OurServicePage_tabCount st q tab
   \<and> OurServicePage_tabCount (st\<lparr>activeStatusTab := t\<rparr>) q tab
       = OurServicePage_tabCount st q tab"
  by (simp add: OurServicePage_tabCount_def getTabCount_filtered setPage_def)

text \<open>
  Claim C10.  A request whose approval status is none of pending, accept and decline
  satisfies no tab's filter condition, contributes nothing to any badge count, lies in no
  group and has no row action; with such a request in the list, the four badge counts sum
  to less than the number of requests.
\<close>

theorem unknown_status_is_invisible:
  assumes "status r \<noteq> ''pending''" and "status r \<noteq> ''accept''" and "status r \<noteq> ''decline''"
  shows "r \<notin> set (filteredRequests tab reqs)
    \<and> getTabCount [r] tab = 0
    \<and> getTabCount (xs @ r # ys) tab = getTabCount (xs @ ys) tab
    \<and> (\<exists>gs. groupedRequests (filteredRequests tab reqs) = Inr gs
          \<and> r \<notin> set (concat (map requests gs)))
    \<and> rowActions r = []
    \<and> getTabCount (xs @ r # ys) TabStatus_Pending + getTabCount (xs @ r # ys) TabStatus_Accept
        + getTabCount (xs @ r # ys) TabStatus_Decline + getTabCount (xs @ r # ys) TabStatus_Done
        < length (xs @ r # ys)"
proof -
  have nf: "r \<notin> set (filteredRequests tab reqs)"
    using assms by (cases tab) (auto simp: filteredRequests_def ServiceStatus_defs)
  have one: "getTabCount [r] tab = 0"
    using assms by (cases tab) (simp_all add: getTabCount_def ServiceStatus_defs)
  have ins: "getTabCount (xs @ r # ys) tab = getTabCount (xs @ ys) tab"
    using one getTabCount_append[of xs "[r] @ ys" tab] getTabCount_append[of "[r]" ys tab]
      getTabCount_append[of xs ys tab] by simp
  obtain gs where gs: "groupedRequests (filteredRequests tab reqs) = Inr gs"
    by (simp add: groupedRequests_closed_form)
  from set_groups[OF gs] nf have "r \<notin> set (concat (map requests gs))" by simp
  with gs have grp: "\<exists>gs. groupedRequests (filteredRequests tab reqs) = Inr gs
          \<and> r \<notin> set (concat (map requests gs))" by blast
  have act: "rowActions r = []"
    using assms by (simp add: rowActions_def ServiceStatus_defs)
  let ?known = "\<lambda>x. status x = ''pending'' \<or> status x = ''accept'' \<or> status x = ''decline''"
  have "length (filter ?known (xs @ r # ys)) = length (filter ?known xs) + length (filter ?known ys)"
    using assms by simp
  also have "\<dots> \<le> length xs + length ys"
    by (intro add_mono length_filter_le)
  also have "\<dots> < length (xs @ r # ys)" by simp
  finally have less: "getTabCount (xs @ r # ys) TabStatus_Pending
        + getTabCount (xs @ r # ys) TabStatus_Accept
        + getTabCount (xs @ r # ys) TabStatus_Decline + getTabCount (xs @ r # ys) TabStatus_Done
        < length (xs @ r # ys)"
    by (simp only: tab_counts_sum)
  from nf one ins grp act less show ?thesis by blast
qed

text \<open>
  The theorem at the scenario extended by a request of status \<^verbatim>\<open>cancelled\<close>.
\<close>

theorem unknown_status_is_invisible_witness:
  "status (request_of ''9'' (Reference ''A'') ''cancelled'' None) \<noteq> ''pending''
   \<and> status (request_of ''9'' (Reference ''A'') ''cancelled'' None) \<noteq> ''accept''
   \<and> status (request_of ''9'' (Reference ''A'') ''cancelled'' None) \<noteq> ''decline''
   \<and> request_of ''9'' (Reference ''A'') ''cancelled'' None
        \<notin> set (filteredRequests TabStatus_Pending
              (scenario_requests @ [request_of ''9'' (Reference ''A'') ''cancelled'' None]))
   \<and> getTabCount (scenario_requests @ [request_of ''9'' (Reference ''A'') ''cancelled'' None])
        TabStatus_Pending = 2
   \<and> getTabCount (scenario_requests @ [request_of ''9'' (Reference ''A'') ''cancelled'' None])
          TabStatus_Pending
      + getTabCount (scenario_requests @ [request_of ''9'' (Reference ''A'') ''cancelled'' None])
          TabStatus_Accept
      + getTabCount (scenario_requests @ [request_of ''9'' (Reference ''A'') ''cancelled'' None])
          TabStatus_Decline
      + getTabCount (scenario_requests @ [request_of ''9'' (Reference ''A'') ''cancelled'' None])
          TabStatus_Done
      < length (scenario_requests @ [request_of ''9'' (Reference ''A'') ''cancelled'' None])"
proof -
  let ?r = "request_of ''9'' (Reference ''A'') ''cancelled'' None"
  have h: "status ?r \<noteq> ''pending''" "status ?r \<noteq> ''accept''" "status ?r \<noteq> ''decline''"
    by (simp_all add: request_of_def)
  have two: "getTabCount (scenario_requests @ []) TabStatus_Pending = 2"
    by (simp add: getTabCount_def scenario_requests_def request_of_def ServiceStatus_defs)
  from unknown_status_is_invisible[OF h,
      of TabStatus_Pending "scenario_requests @ [?r]" scenario_requests "[]"] h two
  show ?thesis by simp
qed

section \<open>Properties of the tab handlers\<close>

text \<open>
  Claim C7.  Whenever the status tab or the service category changes, the page number of
  the service category that is active afterwards is 1.
\<close>

theorem tab_change_resets_page:
  "currentPage (handleServiceTabChange service st) = 1
   \<and> activeServiceTab (handleServiceTabChange service st) = service
   \<and> popPage (handleServiceTabChange service st) = 1
   \<and> cocpPage (handleServiceTabChange service st) = 1
   \<and> currentPage (handleStatusTabChange tab st) = 1
   \<and> activeStatusTab (handleStatusTabChange tab st) = tab
   \<and> activeServiceTab (handleStatusTabChange tab st) = activeServiceTab st"
  by (simp add: handleServiceTabChange_def handleStatusTabChange_def currentPage_def)

section \<open>Properties of the delete action\<close>

text \<open>
  Claim C8.  The delete action is offered exactly for the requests whose approval status
  is accept or decline; a pending request gets the details, accept and decline actions
  only.  The delete handler opens the confirmation dialog first and calls the delete
  mutation only when the dialog was confirmed.
\<close>

theorem delete_offered_and_confirmed:
  "(DeleteButton \<in> set (rowActions req)) = (status req = ''accept'' \<or> status req = ''decline'')
   \<and> rowActions (req\<lparr>status := ''pending''\<rparr>) = [DetailsLink, AcceptButton, DeclineButton]
   \<and> handleDelete service ident False outcome = [ConfirmDialog]
   \<and> (\<exists>rest. handleDelete service ident True outcome =
         ConfirmDialog # (if service = POP then DeletePop ident else DeleteCocp ident) # rest
         \<and> DeletePop ident \<notin> set rest \<and> DeleteCocp ident \<notin> set rest)
   \<and> ((DeletePop ident \<in> set (handleDelete service ident isConfirmed outcome)
        \<or> DeleteCocp ident \<in> set (handleDelete service ident isConfirmed outcome)) = isConfirmed)"
proof -
  have a: "(DeleteButton \<in> set (rowActions req)) =
      (status req = ''accept'' \<or> status req = ''decline'')"
    by (simp add: rowActions_def ServiceStatus_defs)
  have b: "rowActions (req\<lparr>status := ''pending''\<rparr>) = [DetailsLink, AcceptButton, DeclineButton]"
    by (simp add: rowActions_def ServiceStatus_defs)
  have c: "handleDelete service ident False outcome = [ConfirmDialog]"
    by (simp add: handleDelete_def)
  have d: "\<exists>rest. handleDelete service ident True outcome =
         ConfirmDialog # (if service = POP then DeletePop ident else DeleteCocp ident) # rest
         \<and> DeletePop ident \<notin> set rest \<and> DeleteCocp ident \<notin> set rest"
    by (cases outcome) (simp_all add: handleDelete_def)
  have e: "(DeletePop ident \<in> set (handleDelete service ident isConfirmed outcome)
        \<or> DeleteCocp ident \<in> set (handleDelete service ident isConfirmed outcome)) = isConfirmed"
    by (cases outcome) (auto simp: handleDelete_def)
  from a b c d e show ?thesis by blast
qed

end
